theory Spec2Isabelle
  imports Complex_Main "HOL-Library.Log_Nat"
begin

section \<open>Values of the Python runtime\<close>

text \<open>
  The license ledger of \<^verbatim>\<open>merged_app.py\<close> is two functions over a SQLite database:
  \<^verbatim>\<open>process_order\<close> (lines 84-137) and \<^verbatim>\<open>transcribe\<close> (lines 149-197). Both read the clock
  (\<^verbatim>\<open>datetime.now()\<close>), \<^verbatim>\<open>process_order\<close> draws a fresh license code (\<^verbatim>\<open>uuid.uuid4()\<close>); in the
  model the clock reading and the drawn code are arguments.

  A \<^verbatim>\<open>datetime\<close> has microsecond resolution: a point in time is an integer number of
  microseconds. The range of \<^verbatim>\<open>datetime\<close> (years 1 to 9999) is not modelled.
\<close>

type_synonym time = int

datatype error =
  InvalidLicense | LicenseExpired | InsufficientCredit
  | ValueError | OverflowError | IntegrityError

text \<open>
  The DATETIME columns hold text. The code writes them in two ways:
  \<^item> line 114 binds the \<^verbatim>\<open>datetime\<close> objects \<^verbatim>\<open>valid_from\<close> and \<^verbatim>\<open>valid_until\<close> themselves; the
    \<^verbatim>\<open>sqlite3\<close> module adapts a \<^verbatim>\<open>datetime\<close> with \<^verbatim>\<open>isoformat(" ")\<close>, which prints
    \<^verbatim>\<open>YYYY-MM-DD HH:MM:SS.ffffff\<close>, and leaves the fraction out exactly when the microsecond
    field is 0;
  \<^item> lines 130, 181 and 182 bind \<^verbatim>\<open>strftime("%Y-%m-%d %H:%M:%S")\<close>, which prints the whole
    seconds only.
  The code reads them back with \<^verbatim>\<open>strptime(..., "%Y-%m-%d %H:%M:%S")\<close> (lines 120, 159), which
  raises \<^verbatim>\<open>ValueError\<close> ("unconverted data remains") on a text with a fraction.

  A stored text is represented by the point in time it denotes, to the microsecond: the text
  has a fraction exactly when that number is not a whole number of seconds.
\<close>

datatype dtext = DText (micros: int)

definition isoformat_sp :: "time \<Rightarrow> dtext" where
  "isoformat_sp t = DText t"

definition strftime_sec :: "time \<Rightarrow> dtext" where
  "strftime_sec t = DText (t - t mod 1000000)"

definition strptime_sec :: "dtext \<Rightarrow> error + time" where
  "strptime_sec d = (if micros d mod 1000000 = 0 then Inr (micros d) else Inl ValueError)"

definition seconds :: "int \<Rightarrow> int" where
  "seconds n = n * 1000000"

definition days :: "int \<Rightarrow> int" where
  "days n = n * 86400000000"

text \<open>
  The amount of an order is a Python \<^verbatim>\<open>float\<close>, a binary64 number: a finite value, an
  infinity or NaN. A finite binary64 value is a rational number \<open>m * 2^q\<close> with
  \<open>\<bar>m\<bar> < 2^53\<close> and \<open>-1074 \<le> q \<le> 971\<close>. The product of two floats is the exact product,
  rounded: to the nearest multiple of \<open>2^q\<close>, where \<open>q\<close> is the exponent that gives the
  result 53 significant bits (but not less than -1074, the exponent of the subnormal
  numbers), a tie going to the even multiple; a rounded magnitude of \<open>2^1024\<close> or more, that is one
  with a binary exponent of 1024 or more, is an infinity. The sign of a zero is not modelled (\<^verbatim>\<open>int(-0.0)\<close> is 0).
\<close>

datatype pyfloat = Finite rat | PosInf | NegInf | NaN

definition round_half_even :: "rat \<Rightarrow> int" where
  "round_half_even x =
     (let f = \<lfloor>x\<rfloor>; d = x - of_int f
      in if d < 1 / 2 then f else if 1 / 2 < d then f + 1 else if even f then f else f + 1)"

text \<open>
  The binary exponent of a positive rational \<open>x\<close>, the \<open>e\<close> with \<open>2^e \<le> x < 2^(e+1)\<close>, from
  the bit lengths of its numerator and denominator.
\<close>

definition ilog2 :: "rat \<Rightarrow> int" where
  "ilog2 x =
     (let (p, q) = quotient_of x; d = bitlen p - bitlen q
      in if 2 powi d \<le> x then d else d - 1)"

definition b64_round :: "rat \<Rightarrow> pyfloat" where
  "b64_round x =
     (if x = 0 then Finite 0
      else
        (let q = max (ilog2 \<bar>x\<bar> - 52) (- 1074);
             y = of_int (round_half_even (\<bar>x\<bar> / 2 powi q)) * 2 powi q
         in if 1024 \<le> ilog2 y then (if 0 < x then PosInf else NegInf)
            else Finite (if 0 < x then y else - y)))"


text \<open>
  \<^verbatim>\<open>amount * 60\<close> (lines 110 and 125): the \<^verbatim>\<open>int\<close> 60 becomes the float 60.0, and the product
  is the rounded one. \<^verbatim>\<open>int(x)\<close> truncates a finite float toward zero and raises on an
  infinity (\<^verbatim>\<open>OverflowError\<close>) and on NaN (\<^verbatim>\<open>ValueError\<close>).
\<close>

definition fmul60 :: "pyfloat \<Rightarrow> pyfloat" where
  "fmul60 x =
     (case x of Finite a \<Rightarrow> b64_round (a * 60) | PosInf \<Rightarrow> PosInf | NegInf \<Rightarrow> NegInf
      | NaN \<Rightarrow> NaN)"

fun py_int :: "pyfloat \<Rightarrow> error + int" where
  "py_int (Finite r) = Inr (if 0 \<le> r then \<lfloor>r\<rfloor> else \<lceil>r\<rceil>)"
| "py_int PosInf = Inl OverflowError"
| "py_int NegInf = Inl OverflowError"
| "py_int NaN = Inl ValueError"

text \<open>
  A Python \<^verbatim>\<open>int\<close> is unbounded, an INTEGER of SQLite has 64 bits: binding a larger \<^verbatim>\<open>int\<close> to
  a statement raises \<^verbatim>\<open>OverflowError\<close>.
\<close>

definition sqlite_int :: "int \<Rightarrow> error + int" where
  "sqlite_int n = (if - (2 ^ 63) \<le> n \<and> n < 2 ^ 63 then Inr n else Inl OverflowError)"

section \<open>The store\<close>

text \<open>
  The four tables of \<^verbatim>\<open>init_db\<close> (lines 20-75), with the columns the ledger reads or writes.
  The timestamp columns filled by \<^verbatim>\<open>DEFAULT CURRENT_TIMESTAMP\<close>, \<^verbatim>\<open>full_name\<close>,
  \<^verbatim>\<open>next_payment_date\<close>, \<^verbatim>\<open>order_date\<close> and \<^verbatim>\<open>details\<close> are never read and never set by the
  code. \<^verbatim>\<open>remaining_usage\<close> has no default and no NOT NULL: it is an optional integer.
  \<^verbatim>\<open>usage_time\<close> and \<^verbatim>\<open>usage_count\<close> are only ever written by their \<^verbatim>\<open>DEFAULT 0\<close> and by the
  UPDATE of \<^verbatim>\<open>transcribe\<close>. Rows are kept in insertion order, which is the order in which
  \<^verbatim>\<open>fetchone\<close> meets them. Each table has its AUTOINCREMENT counter.
\<close>

record user =
  u_id :: nat
  email :: string

record license =
  l_id :: nat
  l_user_id :: nat
  license_code :: string
  valid_from :: dtext
  valid_until :: dtext
  usage_time :: int
  usage_count :: int
  remaining_usage :: "int option"

record usage_log =
  g_id :: nat
  g_license_id :: nat
  session_start :: dtext
  session_end :: dtext
  duration :: int

record order =
  o_id :: nat
  o_user_id :: nat
  o_license_id :: nat
  order_code :: string
  amount :: pyfloat
  payment_status :: string

record store =
  users :: "user list"
  licenses :: "license list"
  usage_logs :: "usage_log list"
  orders :: "order list"
  users_seq :: nat
  licenses_seq :: nat
  usage_logs_seq :: nat
  orders_seq :: nat

definition empty_store :: store where
  "empty_store = \<lparr>users = [], licenses = [], usage_logs = [], orders = [],
     users_seq = 0, licenses_seq = 0, usage_logs_seq = 0, orders_seq = 0\<rparr>"

section \<open>Order application\<close>

text \<open>
  Lines 94-101: the user is looked up by email and inserted when absent. Line 98 commits
  the insertion at once: the store returned here is the committed one.
\<close>

definition resolve_user :: "string \<Rightarrow> store \<Rightarrow> nat \<times> store" where
  "resolve_user em s =
     (case find (\<lambda>u. email u = em) (users s) of
        None \<Rightarrow>
          (let uid = Suc (users_seq s)
           in (uid, s\<lparr>users := users s @ [\<lparr>u_id = uid, email = em\<rparr>], users_seq := uid\<rparr>))
      | Some u \<Rightarrow> (u_id u, s))"

text \<open>
  Lines 132-135: \<^verbatim>\<open>INSERT OR IGNORE\<close> leaves the table alone when the order code is taken
  (\<^verbatim>\<open>order_code\<close> is UNIQUE).
\<close>

definition insert_order :: "nat \<Rightarrow> nat \<Rightarrow> string \<Rightarrow> pyfloat \<Rightarrow> store \<Rightarrow> store" where
  "insert_order uid lid oc amt s =
     (if oc \<in> set (map order_code (orders s)) then s
      else s\<lparr>orders := orders s @
                [\<lparr>o_id = Suc (orders_seq s), o_user_id = uid, o_license_id = lid,
                  order_code = oc, amount = amt, payment_status = ''completed''\<rparr>],
              orders_seq := Suc (orders_seq s)\<rparr>)"

text \<open>Lines 124-126 and 170: a NULL balance is read as 0.\<close>

definition balance :: "license \<Rightarrow> int" where
  "balance l = (case remaining_usage l of None \<Rightarrow> 0 | Some r \<Rightarrow> r)"

text \<open>
  \<^verbatim>\<open>process_order\<close>, lines 84-137. The result is the outcome (an exception or a normal
  return) and the committed store. The connection is closed without a commit when an
  exception leaves the function, so the statements run since line 98 are rolled back; the
  only commits are line 98 and line 136.
\<close>

definition process_order ::
  "time \<Rightarrow> string \<Rightarrow> string \<Rightarrow> string \<Rightarrow> pyfloat \<Rightarrow> store \<Rightarrow> (error + unit) \<times> store" where
  "process_order now new_code em oc amt s =
     (let (uid, s1) = resolve_user em s
      in case find (\<lambda>l. l_user_id l = uid) (licenses s1) of
           None \<Rightarrow>
             (case py_int (fmul60 amt) of
                Inl e \<Rightarrow> (Inl e, s1)
              | Inr ru \<Rightarrow>
                  (case sqlite_int ru of
                     Inl e \<Rightarrow> (Inl e, s1)
                   | Inr ru' \<Rightarrow>
                       if new_code \<in> set (map license_code (licenses s1))
                       then (Inl IntegrityError, s1)
                       else
                         (let lid = Suc (licenses_seq s1);
                              s2 = s1\<lparr>licenses := licenses s1 @
                                     [\<lparr>l_id = lid, l_user_id = uid, license_code = new_code,
                                       valid_from = isoformat_sp now,
                                       valid_until = isoformat_sp (now + days 30),
                                       usage_time = 0, usage_count = 0,
                                       remaining_usage = Some ru'\<rparr>],
                                     licenses_seq := lid\<rparr>
                          in (Inr (), insert_order uid lid oc amt s2))))
         | Some l \<Rightarrow>
             (case strptime_sec (valid_until l) of
                Inl e \<Rightarrow> (Inl e, s1)
              | Inr vu \<Rightarrow>
                  (let base = (if vu < now then now else vu);
                       new_valid_until = base + days 30
                   in case py_int (fmul60 amt) of
                        Inl e \<Rightarrow> (Inl e, s1)
                      | Inr additional_usage \<Rightarrow>
                          (case sqlite_int (balance l + additional_usage) of
                             Inl e \<Rightarrow> (Inl e, s1)
                           | Inr ru' \<Rightarrow>
                               (let s2 = s1\<lparr>licenses :=
                                      map (\<lambda>r. if l_id r = l_id l
                                                then r\<lparr>valid_until := strftime_sec new_valid_until,
                                                       remaining_usage := Some ru'\<rparr>
                                                else r)
                                          (licenses s1)\<rparr>
                                in (Inr (), insert_order uid (l_id l) oc amt s2))))))"

section \<open>Credit redemption\<close>

text \<open>
  \<^verbatim>\<open>transcribe\<close>, lines 149-197, in the two parts the source has: the lookup and the expiry
  check before the lock is taken (lines 151-166), which return the row read, and the
  section under \<^verbatim>\<open>credit_lock\<close> with what follows it (lines 169-197), which works on that row.
  The UPDATE of line 175 sets \<^verbatim>\<open>remaining_usage\<close> from the row read before the lock and
  increments \<^verbatim>\<open>usage_count\<close> and \<^verbatim>\<open>usage_time\<close> of the row in the table.
\<close>

type_synonym bytes = "char list"

record response =
  status :: string
  file_size :: nat
  deducted_seconds :: int
  remaining_credit :: int

definition file_duration :: int where
  "file_duration = 60"

definition transcribe_lookup :: "time \<Rightarrow> string \<Rightarrow> store \<Rightarrow> error + license" where
  "transcribe_lookup now license_key s =
     (case find (\<lambda>l. license_code l = license_key) (licenses s) of
        None \<Rightarrow> Inl InvalidLicense
      | Some license_record \<Rightarrow>
          (case strptime_sec (valid_until license_record) of
             Inl e \<Rightarrow> Inl e
           | Inr vu \<Rightarrow> if now > vu then Inl LicenseExpired else Inr license_record))"

definition transcribe_locked ::
  "time \<Rightarrow> license \<Rightarrow> bytes \<Rightarrow> store \<Rightarrow> (error + response) \<times> store" where
  "transcribe_locked now license_record content s =
     (if balance license_record < file_duration then (Inl InsufficientCredit, s)
      else
        (let new_remaining = balance license_record - file_duration;
             s1 = s\<lparr>licenses :=
                    map (\<lambda>r. if l_id r = l_id license_record
                              then r\<lparr>remaining_usage := Some new_remaining,
                                     usage_count := usage_count r + 1,
                                     usage_time := usage_time r + file_duration\<rparr>
                              else r)
                        (licenses s)\<rparr>;
             s2 = s1\<lparr>usage_logs := usage_logs s1 @
                    [\<lparr>g_id = Suc (usage_logs_seq s1), g_license_id = l_id license_record,
                      session_start = strftime_sec now,
                      session_end = strftime_sec (now + seconds file_duration),
                      duration = file_duration\<rparr>],
                  usage_logs_seq := Suc (usage_logs_seq s1)\<rparr>
         in (Inr \<lparr>status = ''file processed'', file_size = length content,
                  deducted_seconds = file_duration, remaining_credit = new_remaining\<rparr>,
             s2)))"

text \<open>One call of \<^verbatim>\<open>transcribe\<close> running alone: the locked section sees the row just read.\<close>

definition transcribe ::
  "time \<Rightarrow> string \<Rightarrow> bytes \<Rightarrow> store \<Rightarrow> (error + response) \<times> store" where
  "transcribe now license_key content s =
     (case transcribe_lookup now license_key s of
        Inl e \<Rightarrow> (Inl e, s)
      | Inr license_record \<Rightarrow> transcribe_locked now license_record content s)"


section \<open>Properties of stores\<close>

text \<open>
  \<^verbatim>\<open>id\<close> is the primary key of \<^verbatim>\<open>licenses\<close>, filled by AUTOINCREMENT: the ids in the table
  are distinct and none is beyond the counter.
\<close>

definition licenses_pk :: "store \<Rightarrow> bool" where
  "licenses_pk s =
     (distinct (map l_id (licenses s)) \<and> (\<forall>l\<in>set (licenses s). l_id l \<le> licenses_seq s))"

text \<open>
  The balance of a license is in order when it is set and not negative.
\<close>

definition credit_ok :: "license \<Rightarrow> bool" where
  "credit_ok l = (case remaining_usage l of None \<Rightarrow> False | Some r \<Rightarrow> 0 \<le> r)"

text \<open>
  A later license table is never earlier than a former one when it keeps the rows of the
  former in their places, with their ids, and no row expires earlier than it did.
\<close>

definition never_earlier :: "license list \<Rightarrow> license list \<Rightarrow> bool" where
  "never_earlier old new =
     (length old \<le> length new \<and>
      list_all2 (\<lambda>l l'. l_id l' = l_id l \<and> micros (valid_until l) \<le> micros (valid_until l'))
        old (take (length old) new))"

text \<open>
  The amounts that are not negative numbers: the finite ones from 0 on, and the values
  that are no numbers or not finite (on which \<^verbatim>\<open>int\<close> raises).
\<close>

fun not_negative :: "pyfloat \<Rightarrow> bool" where
  "not_negative (Finite a) = (0 \<le> a)"
| "not_negative PosInf = True"
| "not_negative NegInf = True"
| "not_negative NaN = True"

text \<open>
  The stores the two operations build from the empty database of \<^verbatim>\<open>init_db\<close>, when no
  order has a negative amount. A redemption runs alone (\<open>redeem\<close>), or its locked section
  runs on a row that its lookup read from an earlier store (\<open>redeem_stale\<close>): the lock of
  line 169 is taken after the read of line 154.
\<close>

inductive reachable :: "store \<Rightarrow> bool" where
  start: "reachable empty_store"
| order: "reachable s \<Longrightarrow> not_negative amt \<Longrightarrow>
          reachable (snd (process_order now new_code em oc amt s))"
| redeem: "reachable s \<Longrightarrow> reachable (snd (transcribe now license_key content s))"
| redeem_stale: "reachable s0 \<Longrightarrow> transcribe_lookup now license_key s0 = Inr l \<Longrightarrow>
          reachable s \<Longrightarrow> reachable (snd (transcribe_locked now l content s))"

section \<open>Auxiliary facts\<close>

lemmas ledger_defs =
  process_order_def resolve_user_def insert_order_def balance_def
  transcribe_def transcribe_lookup_def transcribe_locked_def empty_store_def
  isoformat_sp_def strftime_sec_def strptime_sec_def seconds_def days_def
  sqlite_int_def file_duration_def Let_def

lemma find_map_same:
  assumes "\<And>x. P (f x) = P x"
  shows "find P (map f xs) = map_option f (find P xs)"
  using assms by (induction xs) simp_all

lemma find_SomeD: "find P xs = Some x \<Longrightarrow> P x \<and> x \<in> set xs"
  by (induction xs) (auto split: if_splits)

lemma find_snoc_found: "P y \<Longrightarrow> \<exists>z. find P (xs @ [y]) = Some z"
  by (induction xs) simp_all

lemma same_id_same_row:
  assumes "distinct (map l_id xs)" and "x \<in> set xs" and "y \<in> set xs" and "l_id x = l_id y"
  shows "x = y"
  using assms by (meson distinct_map inj_on_eq_iff)

lemma find_update_license:
  assumes "find P (licenses s) = Some l"
    and "\<And>x. P (f x) = P x"
  shows "find P (map (\<lambda>x. if l_id x = l_id l then f x else x) (licenses s)) = Some (f l)"
proof -
  have "find P (map (\<lambda>x. if l_id x = l_id l then f x else x) (licenses s))
        = map_option (\<lambda>x. if l_id x = l_id l then f x else x) (find P (licenses s))"
    by (rule find_map_same) (simp add: assms(2))
  then show ?thesis using assms(1) by simp
qed

lemma mod_seconds [simp]: "(t + seconds n) mod 1000000 = t mod 1000000"
  unfolding seconds_def by (rule mod_mult_self1)

lemma mod_days [simp]: "(t + days n) mod 1000000 = t mod 1000000"
proof -
  have "days n = (n * 86400) * 1000000"
    by (simp add: days_def)
  then show ?thesis
    by (simp only: mod_mult_self1)
qed

lemma micros_strftime_sec: "micros (strftime_sec t) = t - t mod 1000000"
  by (simp add: strftime_sec_def)

lemma strptime_sec_Inr: "strptime_sec d = Inr vu \<Longrightarrow> micros d = vu \<and> vu mod 1000000 = 0"
  by (simp add: strptime_sec_def split: if_splits)

text \<open>An extension by 30 days ends after the expiry it starts from, whatever the clock says.\<close>

lemma extension_later:
  assumes "strptime_sec d = Inr vu"
  shows "micros d < micros (strftime_sec (max now vu + days 30))"
proof -
  have "(max now vu + days 30) mod 1000000 < 1000000"
    by (rule pos_mod_bound) simp
  moreover have "vu \<le> max now vu"
    by simp
  moreover have "days 30 = 2592000000000"
    by (simp add: days_def)
  moreover have "micros d = vu"
    using assms strptime_sec_Inr by blast
  ultimately show ?thesis
    unfolding micros_strftime_sec by linarith
qed

subsection \<open>Rounding to binary64\<close>

lemma round_half_even_nonneg: "0 \<le> x \<Longrightarrow> 0 \<le> round_half_even x"
  by (auto simp add: round_half_even_def Let_def)

text \<open>Rounding to an integer moves a number by a half at most.\<close>

lemma round_half_even_near: "\<bar>of_int (round_half_even x) - x\<bar> \<le> 1 / 2"
proof -
  define d where "d = x - of_int \<lfloor>x\<rfloor>"
  have d: "0 \<le> d" "d < 1"
    unfolding d_def by linarith+
  have f: "of_int \<lfloor>x\<rfloor> - x = - d" "of_int (\<lfloor>x\<rfloor> + 1) - x = 1 - d"
    unfolding d_def by simp_all
  show ?thesis
    unfolding round_half_even_def Let_def d_def [symmetric]
    using d by (auto simp add: f simp del: of_int_add)
qed

text \<open>\<open>ilog2\<close> is the binary exponent.\<close>

lemma ilog2_bounds:
  assumes "0 < x"
  shows "2 powi ilog2 x \<le> x \<and> x < 2 powi (ilog2 x + 1)"
proof -
  obtain p q where pq: "quotient_of x = (p, q)"
    by (cases "quotient_of x")
  have q: "0 < q" and x: "x = of_int p / of_int q"
    using pq quotient_of_denom_pos quotient_of_div by auto
  have p: "0 < p"
    using assms q x by (simp add: zero_less_divide_iff)
  define bp bq where "bp = bitlen p" and "bq = bitlen q"
  have b1: "1 \<le> bp" "1 \<le> bq"
    using p q bitlen_eq_zero_iff [of p] bitlen_eq_zero_iff [of q] bitlen_nonneg [of p]
      bitlen_nonneg [of q]
    unfolding bp_def bq_def by linarith+
  have pl: "(2::rat) powi (bp - 1) \<le> of_int p" and pu: "of_int p < (2::rat) powi bp"
  proof -
    have "2 ^ nat (bp - 1) \<le> p" "p < 2 ^ nat bp"
      using bitlen_bounds [OF p] unfolding bp_def by simp_all
    then have "(of_int (2 ^ nat (bp - 1)) :: rat) \<le> of_int p"
      "(of_int p :: rat) < of_int (2 ^ nat bp)"
      by (simp_all only: of_int_le_iff of_int_less_iff)
    then show "(2::rat) powi (bp - 1) \<le> of_int p" "of_int p < (2::rat) powi bp"
      using b1 by (simp_all add: power_int_nonneg_exp)
  qed
  have ql: "(2::rat) powi (bq - 1) \<le> of_int q" and qu: "of_int q < (2::rat) powi bq"
  proof -
    have "2 ^ nat (bq - 1) \<le> q" "q < 2 ^ nat bq"
      using bitlen_bounds [OF q] unfolding bq_def by simp_all
    then have "(of_int (2 ^ nat (bq - 1)) :: rat) \<le> of_int q"
      "(of_int q :: rat) < of_int (2 ^ nat bq)"
      by (simp_all only: of_int_le_iff of_int_less_iff)
    then show "(2::rat) powi (bq - 1) \<le> of_int q" "of_int q < (2::rat) powi bq"
      using b1 by (simp_all add: power_int_nonneg_exp)
  qed
  have pos: "\<And>k. (0::rat) < 2 powi k"
    by (simp add: zero_less_power_int)
  have up: "x < 2 powi (bp - bq + 1)"
  proof -
    have "x \<le> of_int p / 2 powi (bq - 1)"
      unfolding x using p q ql pos by (intro divide_left_mono) (simp_all add: mult_pos_pos)
    also have "\<dots> < 2 powi bp / 2 powi (bq - 1)"
      using pu pos by (intro divide_strict_right_mono) simp_all
    also have "\<dots> = 2 powi (bp - (bq - 1))"
      by (rule power_int_diff [symmetric]) simp
    also have "bp - (bq - 1) = bp - bq + 1"
      by simp
    finally show ?thesis .
  qed
  have lo: "2 powi (bp - bq - 1) < x"
  proof -
    have e: "bp - bq - 1 = bp - 1 - bq"
      by simp
    have "(2::rat) powi (bp - bq - 1) = 2 powi (bp - 1) / 2 powi bq"
      unfolding e by (rule power_int_diff) simp
    also have "\<dots> < 2 powi (bp - 1) / of_int q"
      using qu pos q by (intro divide_strict_left_mono) (simp_all add: mult_pos_pos)
    also have "\<dots> \<le> x"
      unfolding x using pl q by (intro divide_right_mono) simp_all
    finally show ?thesis .
  qed
  show ?thesis
    using up lo pq
    by (auto simp add: ilog2_def Let_def bp_def bq_def not_le)
qed

text \<open>The test for overflow: the magnitudes from \<open>2^1024\<close> on.\<close>

lemma ilog2_overflow:
  assumes "0 < y"
  shows "1024 \<le> ilog2 y \<longleftrightarrow> 2 powi 1024 \<le> y"
proof
  assume "1024 \<le> ilog2 y"
  then have "(2::rat) powi 1024 \<le> 2 powi ilog2 y"
    by (intro power_int_increasing) simp_all
  then show "2 powi 1024 \<le> y"
    using ilog2_bounds [OF assms] by linarith
next
  assume h: "2 powi 1024 \<le> y"
  show "1024 \<le> ilog2 y"
  proof (rule ccontr)
    assume "\<not> 1024 \<le> ilog2 y"
    then have "ilog2 y + 1 \<le> 1024"
      by simp
    then have "(2::rat) powi (ilog2 y + 1) \<le> 2 powi 1024"
      by (intro power_int_increasing) simp_all
    then show False
      using ilog2_bounds [OF assms] h by linarith
  qed
qed

text \<open>A rounded product has the sign of the exact one.\<close>

lemma b64_round_sign:
  assumes "b64_round x = Finite p"
  shows "(0 \<le> x \<longrightarrow> 0 \<le> p) \<and> (x \<le> 0 \<longrightarrow> p \<le> 0)"
proof (cases "x = 0")
  case True
  then show ?thesis using assms by (simp add: b64_round_def)
next
  case False
  define q where "q = max (ilog2 \<bar>x\<bar> - 52) (- 1074)"
  define y where "y = of_int (round_half_even (\<bar>x\<bar> / 2 powi q)) * ((2::rat) powi q)"
  have "0 \<le> \<bar>x\<bar> / 2 powi q"
    by (simp add: zero_le_power_int)
  then have "0 \<le> round_half_even (\<bar>x\<bar> / 2 powi q)"
    by (rule round_half_even_nonneg)
  then have y: "0 \<le> y"
    by (simp add: y_def zero_le_power_int)
  have "p = (if 0 < x then y else - y)"
    using assms False by (simp add: b64_round_def Let_def q_def y_def split: if_splits)
  then show ?thesis
    using y False by auto
qed

text \<open>A rounded value is within half a unit of the last place of the exact one.\<close>

lemma b64_round_near:
  assumes "b64_round x = Finite p"
  shows "\<bar>p - x\<bar> \<le> 2 powi (max (ilog2 \<bar>x\<bar> - 52) (- 1074)) / 2"
proof (cases "x = 0")
  case True
  then show ?thesis using assms by (simp add: b64_round_def zero_le_power_int)
next
  case False
  define q where "q = max (ilog2 \<bar>x\<bar> - 52) (- 1074)"
  define m where "m = round_half_even (\<bar>x\<bar> / 2 powi q)"
  have pos: "(0::rat) < 2 powi q"
    by (simp add: zero_less_power_int)
  have p: "p = (if 0 < x then of_int m * 2 powi q else - (of_int m * 2 powi q))"
    using assms False by (simp add: b64_round_def Let_def q_def m_def split: if_splits)
  have "\<bar>of_int m - \<bar>x\<bar> / 2 powi q\<bar> \<le> 1 / 2"
    unfolding m_def by (rule round_half_even_near)
  then have "\<bar>of_int m - \<bar>x\<bar> / 2 powi q\<bar> * 2 powi q \<le> 1 / 2 * 2 powi q"
    using pos by (intro mult_right_mono) simp_all
  moreover have e: "of_int m * 2 powi q - \<bar>x\<bar> = (of_int m - \<bar>x\<bar> / 2 powi q) * 2 powi q"
    using pos by (simp add: field_simps)
  moreover have "\<bar>(of_int m - \<bar>x\<bar> / 2 powi q) * 2 powi q\<bar> =
                 \<bar>of_int m - \<bar>x\<bar> / 2 powi q\<bar> * 2 powi q"
    using pos by (simp only: abs_mult abs_of_pos)
  ultimately have "\<bar>of_int m * 2 powi q - \<bar>x\<bar>\<bar> \<le> 2 powi q / 2"
    by simp
  then show ?thesis
    using p False unfolding q_def [symmetric] by (auto simp add: abs_if split: if_splits)
qed

text \<open>
  The products of the amounts used as concrete inputs below, all of them binary64 values.
  The last three are amounts whose rounded product differs from the exact one: the float
  nearest to 0.3 (the exact product is below 18), the float nearest to 0.35, and an
  amount whose product rounds up to \<open>2^63\<close>.
\<close>

lemma fmul60_not_finite [simp]:
  "fmul60 PosInf = PosInf" "fmul60 NegInf = NegInf" "fmul60 NaN = NaN"
  by (simp_all add: fmul60_def)

lemma fmul60_samples:
  "fmul60 (Finite 1) = Finite 60"
  "fmul60 (Finite (1 / 2)) = Finite 30"
  "fmul60 (Finite (- 5)) = Finite (- 300)"
  "fmul60 (Finite (- (1 / 128))) = Finite (- (15 / 32))"
  "fmul60 (Finite (5404319552844595 / 18014398509481984)) = Finite 18"
  "fmul60 (Finite (3152519739159347 / 9007199254740992)) = Finite 21"
  "fmul60 (Finite 153722867280912928) = Finite 9223372036854775808"
  by code_simp+


lemma floor_minus_fifteen [simp]: "\<lfloor>- (15 / 32) :: rat\<rfloor> = - 1"
  by (rule floor_unique) simp_all

lemma ceiling_minus_fifteen [simp]: "\<lceil>- (15 / 32) :: rat\<rceil> = 0"
  by (rule ceiling_unique) simp_all

subsection \<open>The credit of an order\<close>

lemma py_int_fmul60_Inr:
  assumes "py_int (fmul60 amt) = Inr n"
  shows "\<exists>a p. amt = Finite a \<and> fmul60 amt = Finite p \<and>
           n = (if 0 \<le> p then \<lfloor>p\<rfloor> else \<lceil>p\<rceil>) \<and> (0 \<le> a \<longrightarrow> 0 \<le> p) \<and> (a \<le> 0 \<longrightarrow> p \<le> 0)"
proof (cases amt)
  case (Finite a)
  show ?thesis
  proof (cases "b64_round (a * 60)")
    case (Finite p)
    have "(0 \<le> a * 60 \<longrightarrow> 0 \<le> p) \<and> (a * 60 \<le> 0 \<longrightarrow> p \<le> 0)"
      using Finite by (rule b64_round_sign)
    then have "(0 \<le> a \<longrightarrow> 0 \<le> p) \<and> (a \<le> 0 \<longrightarrow> p \<le> 0)"
      by (simp add: zero_le_mult_iff mult_le_0_iff)
    then show ?thesis
      using assms \<open>amt = Finite a\<close> Finite by (simp add: fmul60_def)
  qed (use assms \<open>amt = Finite a\<close> in \<open>simp_all add: fmul60_def\<close>)
qed (use assms in \<open>simp_all add: fmul60_def\<close>)

lemma py_int_not_negative:
  assumes "not_negative amt" and "py_int (fmul60 amt) = Inr n"
  shows "0 \<le> n"
proof -
  from py_int_fmul60_Inr [OF assms(2)] obtain a and p :: rat where
    "amt = Finite a" "n = (if 0 \<le> p then \<lfloor>p\<rfloor> else \<lceil>p\<rceil>)" "0 \<le> a \<longrightarrow> 0 \<le> p"
    by blast
  then show ?thesis
    using assms(1) by simp
qed

lemma sqlite_int_Inr: "sqlite_int n = Inr m \<Longrightarrow> m = n"
  by (simp add: sqlite_int_def split: if_splits)

lemma licenses_resolve_user [simp]: "licenses (snd (resolve_user em s)) = licenses s"
  by (simp add: resolve_user_def Let_def split: option.splits)

lemma orders_resolve_user [simp]: "orders (snd (resolve_user em s)) = orders s"
  by (simp add: resolve_user_def Let_def split: option.splits)

lemma usage_logs_resolve_user [simp]: "usage_logs (snd (resolve_user em s)) = usage_logs s"
  by (simp add: resolve_user_def Let_def split: option.splits)

lemma licenses_seq_resolve_user [simp]:
  "licenses_seq (snd (resolve_user em s)) = licenses_seq s"
  by (simp add: resolve_user_def Let_def split: option.splits)

lemma licenses_seq_insert_order [simp]:
  "licenses_seq (insert_order uid lid oc amt s) = licenses_seq s"
  by (simp add: insert_order_def)

lemma licenses_insert_order [simp]: "licenses (insert_order uid lid oc amt s) = licenses s"
  by (simp add: insert_order_def)

lemma users_insert_order [simp]: "users (insert_order uid lid oc amt s) = users s"
  by (simp add: insert_order_def)

lemma usage_logs_insert_order [simp]:
  "usage_logs (insert_order uid lid oc amt s) = usage_logs s"
  by (simp add: insert_order_def)

lemma order_code_insert_order [simp]:
  "oc \<in> order_code ` set (orders (insert_order uid lid oc amt s))"
  by (simp add: insert_order_def)

text \<open>
  The first order of a new customer, placed on the empty store at time 0 (a whole second)
  for one currency unit: the store it leaves is used as a concrete input below.
\<close>

lemma first_order:
  "process_order 0 ''L1'' ''a'' ''o1'' (Finite 1) empty_store =
     (Inr (),
      \<lparr>users = [\<lparr>u_id = 1, email = ''a''\<rparr>],
       licenses = [\<lparr>l_id = 1, l_user_id = 1, license_code = ''L1'', valid_from = DText 0,
                    valid_until = DText 2592000000000, usage_time = 0, usage_count = 0,
                    remaining_usage = Some 60\<rparr>],
       usage_logs = [],
       orders = [\<lparr>o_id = 1, o_user_id = 1, o_license_id = 1, order_code = ''o1'',
                  amount = Finite 1, payment_status = ''completed''\<rparr>],
       users_seq = 1, licenses_seq = 1, usage_logs_seq = 0, orders_seq = 1\<rparr>)"
  by (simp add: ledger_defs fmul60_samples)

lemma second_order:
  "process_order 1000000 ''L2'' ''a'' ''o2'' (Finite 1)
     (snd (process_order 0 ''L1'' ''a'' ''o1'' (Finite 1) empty_store)) =
     (Inr (),
      \<lparr>users = [\<lparr>u_id = 1, email = ''a''\<rparr>],
       licenses = [\<lparr>l_id = 1, l_user_id = 1, license_code = ''L1'', valid_from = DText 0,
                    valid_until = DText 5184000000000, usage_time = 0, usage_count = 0,
                    remaining_usage = Some 120\<rparr>],
       usage_logs = [],
       orders = [\<lparr>o_id = 1, o_user_id = 1, o_license_id = 1, order_code = ''o1'',
                  amount = Finite 1, payment_status = ''completed''\<rparr>,
                 \<lparr>o_id = 2, o_user_id = 1, o_license_id = 1, order_code = ''o2'',
                  amount = Finite 1, payment_status = ''completed''\<rparr>],
       users_seq = 1, licenses_seq = 1, usage_logs_seq = 0, orders_seq = 2\<rparr>)"
  by (simp add: first_order) (simp add: ledger_defs fmul60_samples)

subsection \<open>What a call of \<^verbatim>\<open>process_order\<close> does to the license table\<close>

text \<open>
  A call fails and leaves the store of the user lookup, or creates a license for a user who
  had none, or extends the first license of the user.
\<close>

lemma process_order_cases:
  assumes po: "process_order now new_code em oc amt s = (res, s')"
  shows
    "(\<exists>e. res = Inl e \<and> s' = snd (resolve_user em s)) \<or>
     (res = Inr () \<and> find (\<lambda>x. l_user_id x = fst (resolve_user em s)) (licenses s) = None \<and>
        (\<exists>n. py_int (fmul60 amt) = Inr n \<and>
           new_code \<notin> set (map license_code (licenses s)) \<and>
           licenses s' = licenses s @
             [\<lparr>l_id = Suc (licenses_seq (snd (resolve_user em s))),
               l_user_id = fst (resolve_user em s), license_code = new_code,
               valid_from = isoformat_sp now, valid_until = isoformat_sp (now + days 30),
               usage_time = 0, usage_count = 0, remaining_usage = Some n\<rparr>])) \<or>
     (res = Inr () \<and>
        (\<exists>l vu n. find (\<lambda>x. l_user_id x = fst (resolve_user em s)) (licenses s) = Some l \<and>
           strptime_sec (valid_until l) = Inr vu \<and> py_int (fmul60 amt) = Inr n \<and>
           licenses s' = map (\<lambda>r. if l_id r = l_id l
                then r\<lparr>valid_until := strftime_sec (max now vu + days 30),
                       remaining_usage := Some (balance l + n)\<rparr>
                else r) (licenses s)))"
proof -
  obtain uid s1 where r: "resolve_user em s = (uid, s1)"
    by (cases "resolve_user em s")
  have l1: "licenses s1 = licenses s"
    using licenses_resolve_user [of em s] r by simp
  have m: "\<And>vu. (if vu < now then now else vu) = max now vu"
    by simp
  show ?thesis
  proof (cases "find (\<lambda>x. l_user_id x = uid) (licenses s)")
    case None
    then show ?thesis
      using po r l1
      by (auto simp add: process_order_def Let_def split: sum.splits if_splits dest!: sqlite_int_Inr)
  next
    case (Some l)
    then show ?thesis
      using po r l1
      by (auto simp add: process_order_def Let_def m split: sum.splits if_splits dest!: sqlite_int_Inr)
  qed
qed

text \<open>The row that a successful order leaves for a user who held the license \<open>l\<close>.\<close>

lemma process_order_extend:
  assumes f: "find (\<lambda>x. l_user_id x = fst (resolve_user em s)) (licenses s) = Some l"
    and ok: "process_order now new_code em oc amt s = (Inr (), s')"
  shows "\<exists>vu n. strptime_sec (valid_until l) = Inr vu \<and> py_int (fmul60 amt) = Inr n \<and>
           find (\<lambda>x. l_user_id x = fst (resolve_user em s)) (licenses s') =
             Some (l\<lparr>valid_until := strftime_sec (max now vu + days 30),
                     remaining_usage := Some (balance l + n)\<rparr>)"
proof -
  from process_order_cases [OF ok] f obtain vu n where
    p: "strptime_sec (valid_until l) = Inr vu" and n: "py_int (fmul60 amt) = Inr n"
    and ls: "licenses s' = map (\<lambda>r. if l_id r = l_id l
                then r\<lparr>valid_until := strftime_sec (max now vu + days 30),
                       remaining_usage := Some (balance l + n)\<rparr>
                else r) (licenses s)"
    by auto
  have "find (\<lambda>x. l_user_id x = fst (resolve_user em s)) (licenses s') =
          Some (l\<lparr>valid_until := strftime_sec (max now vu + days 30),
                  remaining_usage := Some (balance l + n)\<rparr>)"
    unfolding ls using f by (rule find_update_license) simp
  then show ?thesis
    using p n by blast
qed

subsection \<open>Balances\<close>

lemma credit_ok_iff: "credit_ok l \<longleftrightarrow> (\<exists>r. remaining_usage l = Some r \<and> 0 \<le> r)"
  by (simp add: credit_ok_def split: option.splits)

lemma credit_ok_balance: "credit_ok l \<Longrightarrow> 0 \<le> balance l"
  by (auto simp add: credit_ok_iff balance_def)

lemma credit_ok_map:
  assumes "\<forall>x\<in>set xs. credit_ok x"
    and "\<And>x. credit_ok x \<Longrightarrow> credit_ok (f x)"
  shows "\<forall>x\<in>set (map f xs). credit_ok x"
  using assms by simp

lemma process_order_credit_ok:
  assumes inv: "\<forall>l\<in>set (licenses s). credit_ok l"
    and nn: "not_negative amt"
  shows "\<forall>l\<in>set (licenses (snd (process_order now new_code em oc amt s))). credit_ok l"
proof -
  obtain res s' where po: "process_order now new_code em oc amt s = (res, s')"
    by (cases "process_order now new_code em oc amt s")
  from process_order_cases [OF po] have "\<forall>l\<in>set (licenses s'). credit_ok l"
  proof (elim disjE exE conjE)
    fix e assume "s' = snd (resolve_user em s)"
    then show ?thesis using inv by simp
  next
    fix n
    assume n: "py_int (fmul60 amt) = Inr n"
      and ls: "licenses s' = licenses s @
             [\<lparr>l_id = Suc (licenses_seq (snd (resolve_user em s))),
               l_user_id = fst (resolve_user em s), license_code = new_code,
               valid_from = isoformat_sp now, valid_until = isoformat_sp (now + days 30),
               usage_time = 0, usage_count = 0, remaining_usage = Some n\<rparr>]"
    have "0 \<le> n"
      using nn n by (rule py_int_not_negative)
    then show ?thesis
      using inv by (simp add: ls credit_ok_def)
  next
    fix l vu n
    assume f: "find (\<lambda>x. l_user_id x = fst (resolve_user em s)) (licenses s) = Some l"
      and n: "py_int (fmul60 amt) = Inr n"
      and ls: "licenses s' = map (\<lambda>r. if l_id r = l_id l
                then r\<lparr>valid_until := strftime_sec (max now vu + days 30),
                       remaining_usage := Some (balance l + n)\<rparr>
                else r) (licenses s)"
    have "l \<in> set (licenses s)"
      using f find_SomeD by fast
    then have "0 \<le> balance l"
      using inv credit_ok_balance by blast
    moreover have "0 \<le> n"
      using nn n by (rule py_int_not_negative)
    ultimately have "0 \<le> balance l + n"
      by simp
    then show ?thesis
      unfolding ls using inv by (intro credit_ok_map) (simp_all add: credit_ok_def)
  qed
  then show ?thesis using po by simp
qed

lemma transcribe_locked_credit_ok:
  assumes "\<forall>l\<in>set (licenses s). credit_ok l"
  shows "\<forall>l\<in>set (licenses (snd (transcribe_locked now rec content s))). credit_ok l"
proof (cases "balance rec < file_duration")
  case True
  then show ?thesis
    using assms by (simp add: transcribe_locked_def)
next
  case False
  have "\<forall>x\<in>set (map (\<lambda>r. if l_id r = l_id rec
                              then r\<lparr>remaining_usage := Some (balance rec - file_duration),
                                     usage_count := usage_count r + 1,
                                     usage_time := usage_time r + file_duration\<rparr>
                              else r) (licenses s)). credit_ok x"
    using assms False by (intro credit_ok_map) (simp_all add: credit_ok_def)
  then show ?thesis
    using False by (simp add: transcribe_locked_def Let_def)
qed

lemma transcribe_credit_ok:
  assumes "\<forall>l\<in>set (licenses s). credit_ok l"
  shows "\<forall>l\<in>set (licenses (snd (transcribe now license_key content s))). credit_ok l"
  using assms transcribe_locked_credit_ok
  by (simp add: transcribe_def split: sum.splits)

subsection \<open>Expiry dates\<close>

lemma never_earlier_refl: "never_earlier xs xs"
  by (simp add: never_earlier_def list_all2_same)

lemma never_earlier_snoc: "never_earlier xs (xs @ [y])"
  by (simp add: never_earlier_def list_all2_same)

lemma never_earlier_map:
  assumes "\<And>x. x \<in> set xs \<Longrightarrow>
             l_id (f x) = l_id x \<and> micros (valid_until x) \<le> micros (valid_until (f x))"
  shows "never_earlier xs (map f xs)"
  using assms by (simp add: never_earlier_def list_all2_map2 list_all2_same)

lemma process_order_never_earlier:
  assumes d: "distinct (map l_id (licenses s))"
  shows "never_earlier (licenses s) (licenses (snd (process_order now new_code em oc amt s)))"
proof -
  obtain res s' where po: "process_order now new_code em oc amt s = (res, s')"
    by (cases "process_order now new_code em oc amt s")
  from process_order_cases [OF po] have "never_earlier (licenses s) (licenses s')"
  proof (elim disjE exE conjE)
    fix e assume "s' = snd (resolve_user em s)"
    then show ?thesis by (simp add: never_earlier_refl)
  next
    fix n
    assume "licenses s' = licenses s @
             [\<lparr>l_id = Suc (licenses_seq (snd (resolve_user em s))),
               l_user_id = fst (resolve_user em s), license_code = new_code,
               valid_from = isoformat_sp now, valid_until = isoformat_sp (now + days 30),
               usage_time = 0, usage_count = 0, remaining_usage = Some n\<rparr>]"
    then show ?thesis by (simp add: never_earlier_snoc)
  next
    fix l vu n
    assume f: "find (\<lambda>x. l_user_id x = fst (resolve_user em s)) (licenses s) = Some l"
      and p: "strptime_sec (valid_until l) = Inr vu"
      and ls: "licenses s' = map (\<lambda>r. if l_id r = l_id l
                then r\<lparr>valid_until := strftime_sec (max now vu + days 30),
                       remaining_usage := Some (balance l + n)\<rparr>
                else r) (licenses s)"
    have lin: "l \<in> set (licenses s)"
      using f find_SomeD by fast
    have "x \<in> set (licenses s) \<Longrightarrow> l_id x = l_id l \<Longrightarrow>
            micros (valid_until x) \<le> micros (strftime_sec (max now vu + days 30))" for x
      using same_id_same_row [OF d _ lin] extension_later [OF p, of now] by fastforce
    then show ?thesis
      unfolding ls by (intro never_earlier_map) simp
  qed
  then show ?thesis using po by simp
qed

lemma valid_until_transcribe_locked:
  "map valid_until (licenses (snd (transcribe_locked now l content s))) =
     map valid_until (licenses s)"
  by (simp add: transcribe_locked_def Let_def o_def)

lemma valid_until_transcribe:
  "map valid_until (licenses (snd (transcribe now license_key content s))) =
     map valid_until (licenses s)"
  by (simp add: transcribe_def valid_until_transcribe_locked split: sum.splits)

subsection \<open>The primary key of the license table\<close>

text \<open>Both operations keep the ids of the license table distinct.\<close>

lemma licenses_pk_empty: "licenses_pk empty_store"
  by (simp add: licenses_pk_def empty_store_def)

lemma licenses_pk_update:
  assumes "licenses_pk s" and "\<And>x. l_id (f x) = l_id x"
  shows "licenses_pk (s\<lparr>licenses := map f (licenses s)\<rparr>)"
  using assms by (simp add: licenses_pk_def o_def)

lemma licenses_pk_process_order:
  assumes "licenses_pk s"
  shows "licenses_pk (snd (process_order now new_code em oc amt s))"
proof -
  obtain uid s1 where r: "resolve_user em s = (uid, s1)"
    by (cases "resolve_user em s")
  have l1: "licenses s1 = licenses s" and q1: "licenses_seq s1 = licenses_seq s"
    using licenses_resolve_user [of em s] licenses_seq_resolve_user [of em s] r by simp_all
  have pk1: "licenses_pk s1"
    using assms l1 q1 by (simp add: licenses_pk_def)
  have ins: "licenses_pk (insert_order u i c a t) = licenses_pk t" for u i c a t
    by (simp add: licenses_pk_def)
  have new: "licenses_pk (s1\<lparr>licenses := licenses s1 @ [x], licenses_seq := Suc (licenses_seq s1)\<rparr>)"
    if "l_id x = Suc (licenses_seq s1)" for x
    using pk1 that by (fastforce simp add: licenses_pk_def)
  have upd: "licenses_pk (s1\<lparr>licenses := map (\<lambda>r. if l_id r = k
               then r\<lparr>valid_until := v, remaining_usage := u\<rparr> else r) (licenses s1)\<rparr>)"
    for k v u
    using pk1 by (intro licenses_pk_update) simp_all
  show ?thesis
    using r pk1 new upd
    by (simp add: process_order_def Let_def ins split: option.splits sum.splits)
qed

lemma licenses_pk_transcribe_locked:
  assumes "licenses_pk s"
  shows "licenses_pk (snd (transcribe_locked now rec content s))"
proof -
  have "licenses_pk (s\<lparr>licenses := map (\<lambda>r. if l_id r = k
               then r\<lparr>remaining_usage := u, usage_count := usage_count r + 1,
                      usage_time := usage_time r + d\<rparr> else r) (licenses s)\<rparr>)"
    for k u d
    using assms by (intro licenses_pk_update) simp_all
  then show ?thesis
    using assms by (simp add: transcribe_locked_def Let_def licenses_pk_def)
qed

lemma licenses_pk_transcribe:
  assumes "licenses_pk s"
  shows "licenses_pk (snd (transcribe now license_key content s))"
  using assms licenses_pk_transcribe_locked
  by (simp add: transcribe_def split: sum.splits)

subsection \<open>Rejections of \<^verbatim>\<open>transcribe\<close>\<close>


lemma transcribe_failure_keeps_store:
  "fst (transcribe now license_key content s) = Inl e \<Longrightarrow>
     snd (transcribe now license_key content s) = s"
  by (auto simp add: transcribe_def transcribe_locked_def Let_def split: sum.splits if_splits)

section \<open>Duplicate order codes\<close>

text \<open>
  Claim C1 says that a second call of \<^verbatim>\<open>process_order\<close> with the same order code leaves the
  license as the first call left it. The code skips only the insertion of the order row
  (\<^verbatim>\<open>INSERT OR IGNORE\<close>, line 133); the UPDATE of line 127 has run by then. A first order at
  time 0 and the same order again one second later: the second call returns normally, the
  expiry moves from 30 to 60 days and the balance from 60 to 120, and the order table is
  the same.
\<close>

theorem duplicate_order_code_applied_twice:
  "fst (process_order 1000000 ''L2'' ''a'' ''o1'' (Finite 1)
          (snd (process_order 0 ''L1'' ''a'' ''o1'' (Finite 1) empty_store))) = Inr () \<and>
   map valid_until
     (licenses (snd (process_order 0 ''L1'' ''a'' ''o1'' (Finite 1) empty_store))) =
     [DText 2592000000000] \<and>
   map remaining_usage
     (licenses (snd (process_order 0 ''L1'' ''a'' ''o1'' (Finite 1) empty_store))) =
     [Some 60] \<and>
   map valid_until
     (licenses (snd (process_order 1000000 ''L2'' ''a'' ''o1'' (Finite 1)
        (snd (process_order 0 ''L1'' ''a'' ''o1'' (Finite 1) empty_store))))) =
     [DText 5184000000000] \<and>
   map remaining_usage
     (licenses (snd (process_order 1000000 ''L2'' ''a'' ''o1'' (Finite 1)
        (snd (process_order 0 ''L1'' ''a'' ''o1'' (Finite 1) empty_store))))) =
     [Some 120] \<and>
   orders (snd (process_order 1000000 ''L2'' ''a'' ''o1'' (Finite 1)
        (snd (process_order 0 ''L1'' ''a'' ''o1'' (Finite 1) empty_store)))) =
     orders (snd (process_order 0 ''L1'' ''a'' ''o1'' (Finite 1) empty_store))"
  by (simp add: first_order) (simp add: ledger_defs fmul60_samples)

section \<open>What one call commits\<close>

text \<open>
  Claim C2 as stated (all effects of a call become visible or none) fails: an order with
  amount NaN for an unknown email raises \<^verbatim>\<open>ValueError\<close> at line 110, after line 98 has
  committed the new user; the user row stays, without license and without order.
\<close>

theorem nan_order_leaves_user_behind:
  "fst (process_order 0 ''L1'' ''a'' ''o1'' NaN empty_store) = Inl ValueError \<and>
   users empty_store = [] \<and>
   users (snd (process_order 0 ''L1'' ''a'' ''o1'' NaN empty_store)) =
     [\<lparr>u_id = 1, email = ''a''\<rparr>] \<and>
   licenses (snd (process_order 0 ''L1'' ''a'' ''o1'' NaN empty_store)) = [] \<and>
   orders (snd (process_order 0 ''L1'' ''a'' ''o1'' NaN empty_store)) = []"
  by (simp add: ledger_defs fmul60_samples)

text \<open>
  Claim C2, amended. The license step and the order insertion are committed together
  (line 136), the insertion of a new user on its own before them (line 98). A failing call
  leaves the store of the user lookup: the license and order tables are unchanged. A call
  that returns leaves the users of the user lookup, a license of the user, a changed
  license table, and an order with the order code of the call.
\<close>

theorem license_and_order_commit_together:
  "case process_order now new_code em oc amt s of
     (Inl e, s') \<Rightarrow>
        s' = snd (resolve_user em s) \<and> licenses s' = licenses s \<and> orders s' = orders s
   | (Inr u, s') \<Rightarrow>
        users s' = users (snd (resolve_user em s)) \<and>
        find (\<lambda>x. l_user_id x = fst (resolve_user em s)) (licenses s') \<noteq> None \<and>
        licenses s' \<noteq> licenses s \<and>
        oc \<in> set (map order_code (orders s'))"
proof -
  obtain uid s1 where r: "resolve_user em s = (uid, s1)"
    by (cases "resolve_user em s")
  have l1: "licenses s1 = licenses s" and o1: "orders s1 = orders s"
    using licenses_resolve_user [of em s] orders_resolve_user [of em s] r by simp_all
  show ?thesis
  proof (cases "find (\<lambda>x. l_user_id x = uid) (licenses s)")
    case None
    then show ?thesis
      using r l1 o1
      by (simp add: process_order_def Let_def find_snoc_found split: sum.splits)
  next
    case (Some l)
    have ch: "map (\<lambda>r. if l_id r = l_id l
                then r\<lparr>valid_until := strftime_sec (max now vu + days 30),
                       remaining_usage := Some ru\<rparr>
                else r) (licenses s) \<noteq> licenses s"
      if p: "strptime_sec (valid_until l) = Inr vu" for vu ru
    proof
      assume eq: "map (\<lambda>r. if l_id r = l_id l
                then r\<lparr>valid_until := strftime_sec (max now vu + days 30),
                       remaining_usage := Some ru\<rparr>
                else r) (licenses s) = licenses s"
      have "l \<in> set (licenses s)"
        using Some find_SomeD by fast
      then have "l\<lparr>valid_until := strftime_sec (max now vu + days 30),
                   remaining_usage := Some ru\<rparr> = l"
        using eq by (auto simp add: map_eq_conv [where g = "\<lambda>x. x", simplified] split: if_splits)
      then have "valid_until (l\<lparr>valid_until := strftime_sec (max now vu + days 30),
                   remaining_usage := Some ru\<rparr>) = valid_until l"
        by (rule arg_cong)
      then have "valid_until l = strftime_sec (max now vu + days 30)"
        by simp
      then show False
        using extension_later [OF p, of now] by simp
    qed
    have fnd: "find (\<lambda>x. l_user_id x = uid)
                (map (\<lambda>r. if l_id r = l_id l
                then r\<lparr>valid_until := strftime_sec (max now vu + days 30),
                       remaining_usage := Some ru\<rparr>
                else r) (licenses s)) \<noteq> None" for vu ru
      using Some by (simp add: find_update_license)
    have m: "\<And>vu. (if vu < now then now else vu) = max now vu"
      by simp
    show ?thesis
      using Some r l1 o1 ch fnd
      by (simp add: process_order_def Let_def m split: sum.splits)
  qed
qed

theorem license_and_order_commit_together_witness:
  "process_order 0 ''L1'' ''a'' ''o1'' PosInf empty_store =
     (Inl OverflowError, snd (resolve_user ''a'' empty_store)) \<and>
   licenses (snd (process_order 0 ''L1'' ''a'' ''o1'' PosInf empty_store)) =
     licenses empty_store \<and>
   orders (snd (process_order 0 ''L1'' ''a'' ''o1'' PosInf empty_store)) = orders empty_store"
proof -
  have r: "fst (process_order 0 ''L1'' ''a'' ''o1'' PosInf empty_store) = Inl OverflowError"
    by (simp add: ledger_defs fmul60_samples)
  show ?thesis
    using license_and_order_commit_together [where now = 0 and new_code = "''L1''"
        and em = "''a''" and oc = "''o1''" and amt = PosInf and s = empty_store] r
    by (cases "process_order 0 ''L1'' ''a'' ''o1'' PosInf empty_store") auto
qed

section \<open>The balance is never negative\<close>

text \<open>
  Claim C3 as stated fails: \<^verbatim>\<open>process_order\<close> has no check of the amount. An order of amount
  -5 for a new user returns normally and creates a license with a balance of -300.
\<close>

theorem negative_amount_accepted:
  "fst (process_order 0 ''L1'' ''a'' ''o1'' (Finite (- 5)) empty_store) = Inr () \<and>
   map remaining_usage
     (licenses (snd (process_order 0 ''L1'' ''a'' ''o1'' (Finite (- 5)) empty_store))) =
     [Some (- 300)]"
  by (simp add: ledger_defs fmul60_samples)

text \<open>
  Claim C3, amended. In every store reached from the empty database by calls of
  \<^verbatim>\<open>transcribe\<close> and by calls of \<^verbatim>\<open>process_order\<close> whose amount is not a negative number, every
  license has a balance that is set and at least 0. This holds also when the locked section
  of a redemption works on a row read from an earlier store.
\<close>

theorem reachable_remaining_usage_nonneg:
  assumes "reachable s" and "l \<in> set (licenses s)"
  shows "\<exists>r. remaining_usage l = Some r \<and> 0 \<le> r"
proof -
  from assms(1) have "\<forall>l\<in>set (licenses s). credit_ok l"
  proof (induction rule: reachable.induct)
    case start
    then show ?case by (simp add: empty_store_def)
  next
    case (order s amt now new_code em oc)
    show ?case
      using order.IH order.hyps(2) by (rule process_order_credit_ok)
  next
    case (redeem s now license_key content)
    show ?case
      using redeem.IH by (rule transcribe_credit_ok)
  next
    case (redeem_stale s0 now license_key l s content)
    show ?case
      using redeem_stale.IH(2) by (rule transcribe_locked_credit_ok)
  qed
  then show ?thesis
    using assms(2) credit_ok_iff by blast
qed

theorem reachable_remaining_usage_nonneg_witness:
  "reachable (snd (process_order 0 ''L1'' ''a'' ''o1'' (Finite 1) empty_store)) \<and>
   \<lparr>l_id = 1, l_user_id = 1, license_code = ''L1'', valid_from = DText 0,
     valid_until = DText 2592000000000, usage_time = 0, usage_count = 0,
     remaining_usage = Some 60\<rparr>
     \<in> set (licenses (snd (process_order 0 ''L1'' ''a'' ''o1'' (Finite 1) empty_store))) \<and>
   (\<exists>r. remaining_usage
          \<lparr>l_id = 1, l_user_id = 1, license_code = ''L1'', valid_from = DText 0,
            valid_until = DText 2592000000000, usage_time = 0, usage_count = 0,
            remaining_usage = Some 60\<rparr> = Some r \<and> 0 \<le> r)"
proof -
  let ?s = "snd (process_order 0 ''L1'' ''a'' ''o1'' (Finite 1) empty_store)"
  have n: "not_negative (Finite 1)"
    by simp
  have h1: "reachable ?s"
    using reachable.start n by (rule reachable.order)
  have h2: "\<lparr>l_id = 1, l_user_id = 1, license_code = ''L1'', valid_from = DText 0,
     valid_until = DText 2592000000000, usage_time = 0, usage_count = 0,
     remaining_usage = Some 60\<rparr> \<in> set (licenses ?s)"
    by (simp add: first_order)
  show ?thesis
    using h1 h2 reachable_remaining_usage_nonneg [OF h1 h2] by blast
qed

section \<open>Redemptions in flight together\<close>






section \<open>Rejected redemptions\<close>

text \<open>
  Claim C5 says that \<^verbatim>\<open>transcribe\<close> fails with \<^verbatim>\<open>LicenseExpired\<close> exactly when the license
  exists and has expired, and with \<^verbatim>\<open>InsufficientCredit\<close> exactly when it exists, has not
  expired and has too little credit. A license created by \<^verbatim>\<open>process_order\<close> at half a second
  past a whole second has an expiry with a fraction (line 114), which line 159 does not
  parse: after its expiry the call raises \<^verbatim>\<open>ValueError\<close>, not \<^verbatim>\<open>LicenseExpired\<close>, and before
  its expiry, with a balance of 30, it raises \<^verbatim>\<open>ValueError\<close>, not \<^verbatim>\<open>InsufficientCredit\<close>. The
  store is unchanged in both cases.
\<close>

theorem fractional_expiry_raises_value_error:
  "map valid_until
     (licenses (snd (process_order 500000 ''L1'' ''a'' ''o1'' (Finite 1) empty_store))) =
     [DText 2592000500000] \<and>
   transcribe 2592001000000 ''L1'' ''x''
     (snd (process_order 500000 ''L1'' ''a'' ''o1'' (Finite 1) empty_store)) =
     (Inl ValueError, snd (process_order 500000 ''L1'' ''a'' ''o1'' (Finite 1) empty_store)) \<and>
   map remaining_usage
     (licenses (snd (process_order 500000 ''L1'' ''a'' ''o1'' (Finite (1 / 2)) empty_store))) =
     [Some 30] \<and>
   transcribe 1000000 ''L1'' ''x''
     (snd (process_order 500000 ''L1'' ''a'' ''o1'' (Finite (1 / 2)) empty_store)) =
     (Inl ValueError,
      snd (process_order 500000 ''L1'' ''a'' ''o1'' (Finite (1 / 2)) empty_store))"
  by (simp add: ledger_defs fmul60_samples)

section \<open>A successful redemption\<close>

text \<open>
  Claim C6. A call of \<^verbatim>\<open>transcribe\<close> on a license that exists, whose expiry parses and is not
  before now, and whose balance is at least the cost (the constant 60) succeeds; it lowers
  \<^verbatim>\<open>remaining_usage\<close> by the cost, raises \<^verbatim>\<open>usage_count\<close> by 1 and \<^verbatim>\<open>usage_time\<close> by the cost,
  appends exactly one usage log with \<^verbatim>\<open>duration\<close> = cost and
  \<^verbatim>\<open>session_end\<close> = \<^verbatim>\<open>session_start\<close> + cost seconds, and answers with the byte length of the
  artifact, the cost as \<^verbatim>\<open>deducted_seconds\<close> and the new balance as \<^verbatim>\<open>remaining_credit\<close>.
\<close>

theorem transcribe_success:
  assumes "find (\<lambda>l. license_code l = license_key) (licenses s) = Some l"
    and "strptime_sec (valid_until l) = Inr vu" and "now \<le> vu"
    and "remaining_usage l = Some r" and "file_duration \<le> r"
  shows "case transcribe now license_key content s of
           (res, s') \<Rightarrow>
             file_duration = 60 \<and>
             res = Inr \<lparr>status = ''file processed'', file_size = length content,
                        deducted_seconds = file_duration,
                        remaining_credit = r - file_duration\<rparr> \<and>
             find (\<lambda>l. license_code l = license_key) (licenses s') =
               Some (l\<lparr>remaining_usage := Some (r - file_duration),
                       usage_count := usage_count l + 1,
                       usage_time := usage_time l + file_duration\<rparr>) \<and>
             (\<exists>g. usage_logs s' = usage_logs s @ [g] \<and>
                  g_license_id g = l_id l \<and> duration g = file_duration \<and>
                  micros (session_end g) = micros (session_start g) + seconds file_duration)"
proof -
  have lk: "transcribe_lookup now license_key s = Inr l"
    using assms(1-3) by (simp add: transcribe_lookup_def)
  have b: "balance l = r"
    using assms(4) by (simp add: balance_def)
  have f: "find (\<lambda>x. license_code x = license_key)
             (map (\<lambda>x. if l_id x = l_id l
                        then x\<lparr>remaining_usage := Some (r - file_duration),
                               usage_count := usage_count x + 1,
                               usage_time := usage_time x + file_duration\<rparr>
                        else x) (licenses s))
           = Some (l\<lparr>remaining_usage := Some (r - file_duration),
                     usage_count := usage_count l + 1,
                     usage_time := usage_time l + file_duration\<rparr>)"
    using assms(1) by (rule find_update_license) simp
  have d: "file_duration = 60"
    by (simp add: file_duration_def)
  show ?thesis
    using lk b assms(5) f d
    by (simp add: transcribe_def transcribe_locked_def Let_def strftime_sec_def)
qed

theorem transcribe_success_witness:
  "case transcribe 5000000 ''L1'' ''abc''
          (snd (process_order 0 ''L1'' ''a'' ''o1'' (Finite 1) empty_store)) of
     (res, s') \<Rightarrow>
       res = Inr \<lparr>status = ''file processed'', file_size = 3,
                  deducted_seconds = 60, remaining_credit = 0\<rparr> \<and>
       find (\<lambda>l. license_code l = ''L1'') (licenses s') =
         Some \<lparr>l_id = 1, l_user_id = 1, license_code = ''L1'', valid_from = DText 0,
               valid_until = DText 2592000000000, usage_time = 60, usage_count = 1,
               remaining_usage = Some 0\<rparr> \<and>
       (\<exists>g. usage_logs s' = [g] \<and> g_license_id g = 1 \<and> duration g = 60 \<and>
            micros (session_end g) = micros (session_start g) + 60000000)"
proof -
  let ?s = "snd (process_order 0 ''L1'' ''a'' ''o1'' (Finite 1) empty_store)"
  let ?l = "\<lparr>l_id = 1, l_user_id = 1, license_code = ''L1'', valid_from = DText 0,
             valid_until = DText 2592000000000, usage_time = 0, usage_count = 0,
             remaining_usage = Some 60\<rparr>"
  have h1: "find (\<lambda>l. license_code l = ''L1'') (licenses ?s) = Some ?l"
    by (simp add: first_order)
  have h2: "strptime_sec (valid_until ?l) = Inr 2592000000000"
    by (simp add: strptime_sec_def)
  have h3: "(5000000::int) \<le> 2592000000000" by simp
  have h4: "remaining_usage ?l = Some 60" by simp
  have h5: "file_duration \<le> 60" by (simp add: file_duration_def)
  show ?thesis
    using transcribe_success [OF h1 h2 h3 h4 h5, where content = "''abc''"]
    by (simp add: first_order file_duration_def seconds_def split: prod.splits)
qed

section \<open>An order for a user who holds a license\<close>




section \<open>The first order of a user\<close>



section \<open>The expiry never moves back\<close>

text \<open>
  Claim C9. In a license table whose ids are distinct (\<^verbatim>\<open>id\<close> is the primary key; the
  empty database has this property and both operations keep it, see \<open>licenses_pk\<close>), no
  operation moves the expiry of a license back: after a call of \<^verbatim>\<open>process_order\<close>,
  whatever its outcome, every row is in its place with an expiry at or after the one it
  had; a call of \<^verbatim>\<open>transcribe\<close>, whatever its outcome, and the locked section on any row
  leave every expiry as it was; and an order that is applied to a user who holds a license
  moves the expiry of that license strictly forward.
\<close>

theorem valid_until_never_decreases:
  assumes "distinct (map l_id (licenses s))"
  shows "never_earlier (licenses s) (licenses (snd (process_order now new_code em oc amt s))) \<and>
         map valid_until (licenses (snd (transcribe now' license_key content s))) =
           map valid_until (licenses s) \<and>
         map valid_until (licenses (snd (transcribe_locked now' rec content s))) =
           map valid_until (licenses s) \<and>
         (find (\<lambda>x. l_user_id x = fst (resolve_user em s)) (licenses s) = Some l \<and>
          process_order now new_code em oc amt s = (Inr (), s') \<longrightarrow>
            (\<exists>l'. find (\<lambda>x. l_user_id x = fst (resolve_user em s)) (licenses s') = Some l' \<and>
                  micros (valid_until l) < micros (valid_until l')))"
proof -
  have strict: "\<exists>l'. find (\<lambda>x. l_user_id x = fst (resolve_user em s)) (licenses s') = Some l' \<and>
                  micros (valid_until l) < micros (valid_until l')"
    if "find (\<lambda>x. l_user_id x = fst (resolve_user em s)) (licenses s) = Some l"
      and "process_order now new_code em oc amt s = (Inr (), s')"
  proof -
    from process_order_extend [OF that] obtain vu n where
      p: "strptime_sec (valid_until l) = Inr vu"
      and f: "find (\<lambda>x. l_user_id x = fst (resolve_user em s)) (licenses s') =
             Some (l\<lparr>valid_until := strftime_sec (max now vu + days 30),
                     remaining_usage := Some (balance l + n)\<rparr>)"
      by blast
    show ?thesis
      using f extension_later [OF p, of now] by simp
  qed
  show ?thesis
    using process_order_never_earlier [OF assms] valid_until_transcribe
      valid_until_transcribe_locked strict
    by blast
qed

theorem valid_until_never_decreases_witness:
  "distinct (map l_id
     (licenses (snd (process_order 0 ''L1'' ''a'' ''o1'' (Finite 1) empty_store)))) \<and>
   never_earlier
     (licenses (snd (process_order 0 ''L1'' ''a'' ''o1'' (Finite 1) empty_store)))
     (licenses (snd (process_order 1000000 ''L2'' ''a'' ''o2'' (Finite 1)
        (snd (process_order 0 ''L1'' ''a'' ''o1'' (Finite 1) empty_store))))) \<and>
   map valid_until (licenses (snd (transcribe 1000000 ''L1'' ''x''
        (snd (process_order 0 ''L1'' ''a'' ''o1'' (Finite 1) empty_store))))) =
     map valid_until
       (licenses (snd (process_order 0 ''L1'' ''a'' ''o1'' (Finite 1) empty_store))) \<and>
   (\<exists>l'. find (\<lambda>x. l_user_id x =
            fst (resolve_user ''a''
                   (snd (process_order 0 ''L1'' ''a'' ''o1'' (Finite 1) empty_store))))
           (licenses (snd (process_order 1000000 ''L2'' ''a'' ''o2'' (Finite 1)
              (snd (process_order 0 ''L1'' ''a'' ''o1'' (Finite 1) empty_store))))) = Some l' \<and>
         2592000000000 < micros (valid_until l'))"
proof -
  let ?s = "snd (process_order 0 ''L1'' ''a'' ''o1'' (Finite 1) empty_store)"
  let ?l = "\<lparr>l_id = 1, l_user_id = 1, license_code = ''L1'', valid_from = DText 0,
             valid_until = DText 2592000000000, usage_time = 0, usage_count = 0,
             remaining_usage = Some 60\<rparr>"
  let ?s' = "snd (process_order 1000000 ''L2'' ''a'' ''o2'' (Finite 1) ?s)"
  have h: "distinct (map l_id (licenses ?s))"
    by (simp add: first_order)
  have h1: "find (\<lambda>x. l_user_id x = fst (resolve_user ''a'' ?s)) (licenses ?s) = Some ?l"
    by (simp add: first_order resolve_user_def)
  have h2: "process_order 1000000 ''L2'' ''a'' ''o2'' (Finite 1) ?s = (Inr (), ?s')"
    by (simp add: second_order)
  from valid_until_never_decreases [OF h, where now = 1000000 and new_code = "''L2''"
      and em = "''a''" and oc = "''o2''" and amt = "Finite 1" and s' = ?s' and l = ?l
      and now' = 1000000 and license_key = "''L1''" and content = "''x''"] h1 h2
  show ?thesis
    using h by simp
qed

section \<open>A balance that is NULL\<close>




end
